theory Spec2Isabelle
  imports Complex_Main "HOL-Library.Word" "HOL-Library.Multiset"
begin

section \<open>JavaScript strings\<close>

text \<open>
  A JavaScript string is a sequence of UTF-16 code units. \<open>js\<close> embeds an ASCII literal.
  \<open>String.prototype.trim\<close> removes, at both ends, the code units of the ECMAScript
  productions WhiteSpace and LineTerminator.
\<close>

type_synonym code_unit = "16 word"

type_synonym jsstring = "code_unit list"

definition js :: "string \<Rightarrow> jsstring" where
  "js s = map of_char s"

definition isWhiteSpace :: "code_unit \<Rightarrow> bool" where
  "isWhiteSpace c =
     (c = 0x0009 \<or> c = 0x000A \<or> c = 0x000B \<or> c = 0x000C \<or> c = 0x000D \<or> c = 0x0020
      \<or> c = 0x00A0 \<or> c = 0x1680 \<or> c = 0x2000 \<or> c = 0x2001 \<or> c = 0x2002 \<or> c = 0x2003
      \<or> c = 0x2004 \<or> c = 0x2005 \<or> c = 0x2006 \<or> c = 0x2007 \<or> c = 0x2008 \<or> c = 0x2009
      \<or> c = 0x200A \<or> c = 0x2028 \<or> c = 0x2029 \<or> c = 0x202F \<or> c = 0x205F \<or> c = 0x3000
      \<or> c = 0xFEFF)"

definition trim :: "jsstring \<Rightarrow> jsstring" where
  "trim s = rev (dropWhile isWhiteSpace (rev (dropWhile isWhiteSpace s)))"

section \<open>Data model (the shapes the components read)\<close>

text \<open>
  The type declarations of \<open>lib/types\<close> are not among the sources; the records below have
  the fields that the components under \<open>components/analysis\<close> and \<open>components/history\<close>
  read. A JSON number is a finite double; it is embedded as the rational it denotes.
  An optional field is an \<open>option\<close>.
\<close>

record ScoredFeature =
  name :: jsstring
  description :: jsstring
  confidence :: jsstring
  rice_score :: "rat option"
  category :: "jsstring option"

record TopFeature =
  top_name :: jsstring
  top_description :: jsstring
  top_confidence :: jsstring
  top_rice_score :: "rat option"
  top_evidence :: "jsstring list option"

record QueryResponse =
  top_feature :: "TopFeature option"
  feature_spec_markdown :: "jsstring option"
  ui_proposals_markdown :: "jsstring option"
  task_breakdown_markdown :: "jsstring option"
  all_opportunities :: "ScoredFeature list option"

record AnalysisHistoryEntry =
  entry_id :: jsstring
  entry_query :: jsstring
  entry_files :: "jsstring list"
  entry_timestamp :: int
  entry_result :: QueryResponse

section \<open>History cache\<close>

text \<open>A value that a JavaScript \<open>throw\<close> or a rejected promise carries: an \<open>Error\<close>
  object with its message, or anything else.\<close>

datatype thrown = JsError jsstring | NonError

text \<open>
  The cache: its entries in enumeration order (newest first) and the condition of the
  durable store under it. \<open>store_failure = Some m\<close> means that the store is unavailable or
  full, and that a write fails with a PersistenceError whose message is \<open>m\<close>.
\<close>

record history_cache =
  entries :: "AnalysisHistoryEntry list"
  store_failure :: "jsstring option"

text \<open>
  Modelled from the spec: \<open>addEntry\<close> of the hook \<open>lib/hooks/use-analysis-history\<close>, which
  is not among the sources. The spec (4.3): it inserts at the head of the enumeration order
  and persists; it fails with a PersistenceError if the durable store is unavailable or full.
\<close>

definition addEntry :: "AnalysisHistoryEntry \<Rightarrow> history_cache \<Rightarrow> thrown + history_cache" where
  "addEntry e h =
     (case store_failure h of
        Some m \<Rightarrow> Inl (JsError m)
      | None \<Rightarrow> Inr (h\<lparr>entries := e # entries h\<rparr>))"

section \<open>Query execution controller (\<open>app/analysis/page.tsx\<close>, \<open>query-input.tsx\<close>)\<close>

datatype toast = ToastSuccess jsstring | ToastError jsstring

text \<open>One invocation of \<open>handleRun\<close> suspended at \<open>await runQuery(query, selectedFiles)\<close>:
  the closure holds the \<open>query\<close> and \<open>selectedFiles\<close> of the render that started it.\<close>

record run =
  run_query :: jsstring
  run_files :: "jsstring list"

text \<open>
  The state of \<open>AnalysisPage\<close> (its four \<open>useState\<close> cells), the history cache behind
  \<open>useAnalysisHistory\<close>, the notifications emitted so far, and the requests issued to the
  remote pipeline that have not settled yet.
\<close>

record page =
  query :: jsstring
  selectedFiles :: "jsstring list"
  isRunning :: bool
  result :: "QueryResponse option"
  history :: history_cache
  toasts :: "toast list"
  outstanding :: "run list"

definition initial_page :: "history_cache \<Rightarrow> page" where
  "initial_page h =
     \<lparr>query = [], selectedFiles = [], isRunning = False, result = None,
      history = h, toasts = [], outstanding = []\<rparr>"

definition toggleFile :: "jsstring \<Rightarrow> page \<Rightarrow> page" where
  "toggleFile filename s =
     s\<lparr>selectedFiles :=
         (if filename \<in> set (selectedFiles s)
          then filter (\<lambda>f. f \<noteq> filename) (selectedFiles s)
          else selectedFiles s @ [filename])\<rparr>"

text \<open>\<open>handleRun\<close> up to its \<open>await\<close>: the guard, the two state updates, and the request.\<close>

definition handleRun :: "page \<Rightarrow> page" where
  "handleRun s =
     (if trim (query s) = [] then s
      else s\<lparr>isRunning := True, result := None,
             outstanding := outstanding s @ [\<lparr>run_query = query s, run_files = selectedFiles s\<rparr>]\<rparr>)"

text \<open>The \<open>catch\<close> block followed by the \<open>finally\<close> block.\<close>

definition catch_finally :: "thrown \<Rightarrow> page \<Rightarrow> page" where
  "catch_finally err s =
     s\<lparr>toasts := toasts s @
          [ToastError (case err of JsError m \<Rightarrow> m | NonError \<Rightarrow> js ''Analysis failed'')],
       isRunning := False\<rparr>"

datatype settlement = Resolved QueryResponse | Rejected thrown

text \<open>
  \<open>handleRun\<close> from its \<open>await\<close> on, for the run \<open>r\<close>. \<open>generateId\<close> (of \<open>lib/utils\<close>, not
  among the sources) and \<open>Date.now\<close> are calls into the environment: the values they
  return, \<open>new_id\<close> and \<open>now\<close>, are inputs.
\<close>

definition resume :: "run \<Rightarrow> settlement \<Rightarrow> jsstring \<Rightarrow> int \<Rightarrow> page \<Rightarrow> page" where
  "resume r outcome new_id now s =
     (case outcome of
        Rejected err \<Rightarrow> catch_finally err s
      | Resolved response \<Rightarrow>
          (let s1 = s\<lparr>result := Some response\<rparr> in
           case addEntry \<lparr>entry_id = new_id, entry_query = run_query r,
                          entry_files = run_files r, entry_timestamp = now,
                          entry_result = response\<rparr> (history s1) of
             Inl err \<Rightarrow> catch_finally err s1
           | Inr h \<Rightarrow>
               s1\<lparr>history := h,
                  toasts := toasts s1 @ [ToastSuccess (js ''Analysis complete'')],
                  isRunning := False\<rparr>))"

text \<open>The entry that \<open>resume\<close> hands to \<open>addEntry\<close>, by name.\<close>

definition entry_of :: "run \<Rightarrow> jsstring \<Rightarrow> int \<Rightarrow> QueryResponse \<Rightarrow> AnalysisHistoryEntry" where
  "entry_of r new_id now response =
     \<lparr>entry_id = new_id, entry_query = run_query r, entry_files = run_files r,
      entry_timestamp = now, entry_result = response\<rparr>"

text \<open>
  Modelled from the spec: \<open>generateId\<close> of \<open>lib/utils\<close>, which is not among the sources.
  The spec (3, 4.3): the id is an opaque unique identifier, generated at creation time and
  never reused; no two entries ever share an id. The model: \<open>generateId n\<close> is the call
  that \<open>n\<close> calls have preceded; it returns an identifier that none of them returned,
  and the number of calls made then.
\<close>

definition generateId :: "nat \<Rightarrow> jsstring \<times> nat" where
  "generateId n = (replicate (Suc n) 0x69, Suc n)"

text \<open>The identifiers in the cache are pairwise distinct, and each was returned by one of
  the first \<open>n\<close> calls of \<open>generateId\<close>.\<close>

definition ids_issued :: "nat \<Rightarrow> history_cache \<Rightarrow> bool" where
  "ids_issued n h =
     (distinct (map entry_id (entries h))
      \<and> list_all (\<lambda>e. entry_id e \<in> set (map (\<lambda>k. fst (generateId k)) [0..<n])) (entries h))"

text \<open>The \<open>disabled\<close> attribute of the Run button in \<open>QueryInput\<close>.\<close>

definition button_disabled :: "page \<Rightarrow> bool" where
  "button_disabled s = (trim (query s) = [] \<or> isRunning s)"

text \<open>\<open>{isRunning && <AnalysisLoading />}\<close>: the progress display is mounted exactly
  while \<open>isRunning\<close> holds.\<close>

definition loading_mounted :: "page \<Rightarrow> bool" where
  "loading_mounted s = isRunning s"

text \<open>
  What can happen to the page: typing (or a suggestion chip), toggling a file, a click on
  the Run button, a key pressed in the text area (the key, \<open>metaKey\<close>, \<open>ctrlKey\<close>), and the
  settlement of the \<open>i\<close>-th outstanding request.
\<close>

datatype event =
    SetQuery jsstring
  | ToggleFile jsstring
  | ClickRun
  | KeyDown jsstring bool bool
  | Settle nat settlement jsstring int

fun step :: "event \<Rightarrow> page \<Rightarrow> page" where
  "step (SetQuery q) s = s\<lparr>query := q\<rparr>"
| "step (ToggleFile f) s = toggleFile f s"
| "step ClickRun s = (if button_disabled s then s else handleRun s)"
| "step (KeyDown key metaKey ctrlKey) s =
     (if key = js ''Enter'' \<and> (metaKey \<or> ctrlKey) then handleRun s else s)"
| "step (Settle i outcome new_id now) s =
     (if i < length (outstanding s)
      then resume (outstanding s ! i) outcome new_id now
             (s\<lparr>outstanding := take i (outstanding s) @ drop (Suc i) (outstanding s)\<rparr>)
      else s)"

definition exec :: "event list \<Rightarrow> page \<Rightarrow> page" where
  "exec evs s = fold step evs s"

text \<open>
  The position of one outstanding request in the list while other things happen: a
  request that settles at a smaller position moves it down by one, its own settlement
  ends it (\<open>None\<close>), and nothing else moves it, since new requests join at the end.
\<close>

fun track :: "event list \<Rightarrow> nat \<Rightarrow> nat option" where
  "track [] k = Some k"
| "track (Settle j outcome new_id now # evs) k =
     (if j = k then None else track evs (if j < k then k - 1 else k))"
| "track (ev # evs) k = track evs k"

text \<open>
  The page has no variable that names the states Idle, Running, Succeeded and Failed;
  they are read off it: a run is in flight while \<open>isRunning\<close> holds, and otherwise the
  last notification tells how the last settled run ended.
\<close>

datatype controller_state = Idle | Running | Succeeded | Failed

definition controller_state :: "page \<Rightarrow> controller_state" where
  "controller_state s =
     (if isRunning s then Running
      else if toasts s = [] then Idle
      else (case last (toasts s) of ToastSuccess m \<Rightarrow> Succeeded | ToastError m \<Rightarrow> Failed))"

section \<open>Stage choreographer (\<open>AnalysisLoading\<close>)\<close>

text \<open>Simulated timing for each step in ms.\<close>

definition STEP_DURATIONS :: "nat list" where
  "STEP_DURATIONS = [2000, 3000, 5000, 3000, 4000, 2000]"

text \<open>\<open>STEP_DURATIONS[k]\<close> as the delay argument of \<open>setTimeout\<close>: an index out of range reads
  \<open>undefined\<close>, which \<open>setTimeout\<close> takes as the delay 0.\<close>

definition delay_of :: "nat \<Rightarrow> nat" where
  "delay_of k = (if k < length STEP_DURATIONS then STEP_DURATIONS ! k else 0)"

text \<open>
  The component instance: its React state \<open>activeStep\<close>, the two variables of the effect's
  closure (\<open>currentStep\<close>, and \<open>timeout\<close>, the handle of the timer set last), and the
  event loop's table of this component's timers that are set and have neither fired nor
  been cleared, each with its handle and its delay in ms. \<open>next_handle\<close> is the handle
  that the next \<open>setTimeout\<close> returns.
\<close>

record loading =
  activeStep :: nat
  currentStep :: nat
  timeout :: nat
  timers :: "(nat \<times> nat) list"
  next_handle :: nat

text \<open>The statement \<open>timeout = setTimeout(advanceStep, d)\<close>.\<close>

definition setTimeout :: "nat \<Rightarrow> loading \<Rightarrow> loading" where
  "setTimeout d s =
     s\<lparr>timers := timers s @ [(next_handle s, d)], timeout := next_handle s,
       next_handle := Suc (next_handle s)\<rparr>"

definition clearTimeout :: "nat \<Rightarrow> loading \<Rightarrow> loading" where
  "clearTimeout h s = s\<lparr>timers := filter (\<lambda>t. fst t \<noteq> h) (timers s)\<rparr>"

text \<open>\<open>advanceStep\<close>; \<open>n\<close> is \<open>PIPELINE_NODES.length\<close> (\<open>lib/constants\<close> is not among the
  sources). The comparison is JavaScript's, on integers: \<open>currentStep < n - 1\<close>.\<close>

definition advanceStep :: "nat \<Rightarrow> loading \<Rightarrow> loading" where
  "advanceStep n s =
     (if int (currentStep s) < int n - 1
      then setTimeout (delay_of (Suc (currentStep s)))
             (s\<lparr>currentStep := Suc (currentStep s), activeStep := Suc (currentStep s)\<rparr>)
      else s)"

text \<open>Mounting: \<open>useState(0)\<close>, then the effect: \<open>currentStep = 0\<close> and the first timer.
  \<open>h0\<close> is the handle that the first \<open>setTimeout\<close> returns.\<close>

definition mount :: "nat \<Rightarrow> loading" where
  "mount h0 =
     setTimeout (delay_of 0)
       \<lparr>activeStep = 0, currentStep = 0, timeout = 0, timers = [], next_handle = h0\<rparr>"

text \<open>The event loop runs the callback of the timer with handle \<open>h\<close>, if that timer is
  still in the table, and removes it.\<close>

definition fire :: "nat \<Rightarrow> nat \<Rightarrow> loading \<Rightarrow> loading" where
  "fire n h s =
     (if h \<in> fst ` set (timers s)
      then advanceStep n (s\<lparr>timers := filter (\<lambda>t. fst t \<noteq> h) (timers s)\<rparr>)
      else s)"

text \<open>The effect's cleanup, \<open>() => clearTimeout(timeout)\<close>, run when the component unmounts.\<close>

definition cleanup :: "loading \<Rightarrow> loading" where
  "cleanup s = clearTimeout (timeout s) s"

datatype loading_event = Fire nat | Unmount

fun loading_step :: "nat \<Rightarrow> loading_event \<Rightarrow> loading \<Rightarrow> loading" where
  "loading_step n (Fire h) s = fire n h s"
| "loading_step n Unmount s = cleanup s"

definition loading_exec :: "nat \<Rightarrow> loading_event list \<Rightarrow> loading \<Rightarrow> loading" where
  "loading_exec n evs s = fold (loading_step n) evs s"

text \<open>What the effect maintains: the displayed stage is the closure's \<open>currentStep\<close>, and
  the table holds no timer, or the single timer that was set last, for the current stage
  and with that stage's duration.\<close>

definition loading_inv :: "loading \<Rightarrow> bool" where
  "loading_inv s =
     (activeStep s = currentStep s
      \<and> (timers s = [] \<or> timers s = [(timeout s, delay_of (currentStep s))]))"

section \<open>Opportunity ranking (\<open>OpportunitiesTab\<close>)\<close>

datatype SortField = Name | RiceScore | Confidence

record tab =
  sortField :: SortField
  sortAsc :: bool

definition initial_tab :: tab where
  "initial_tab = \<lparr>sortField = RiceScore, sortAsc = False\<rparr>"

definition toggleSort :: "SortField \<Rightarrow> tab \<Rightarrow> tab" where
  "toggleSort field st =
     (if sortField st = field then st\<lparr>sortAsc := \<not> sortAsc st\<rparr>
      else st\<lparr>sortField := field, sortAsc := False\<rparr>)"

text \<open>A JavaScript number as far as the comparator produces one: a finite value or NaN.
  The difference of two finite doubles has the sign of the exact difference, and the
  sort reads only the sign.\<close>

datatype jsnum = Num rat | NaN

text \<open>The value of a property read: \<open>undefined\<close>, a number, or an object (a function
  included).\<close>

datatype jsval = Undefined | Number rat | Object

text \<open>
  The properties that every object literal inherits from \<open>Object.prototype\<close>; each of them
  is a function, except \<open>__proto__\<close>, which reads as the prototype object.
\<close>

definition Object_prototype_keys :: "jsstring list" where
  "Object_prototype_keys =
     [js ''constructor'', js ''hasOwnProperty'', js ''isPrototypeOf'',
      js ''propertyIsEnumerable'', js ''toLocaleString'', js ''toString'', js ''valueOf'',
      js ''__proto__'', js ''__defineGetter__'', js ''__defineSetter__'',
      js ''__lookupGetter__'', js ''__lookupSetter__'']"

text \<open>\<open>order[k]\<close> for \<open>const order = { high: 3, medium: 2, low: 1 }\<close>: the own properties
  first, then the prototype chain.\<close>

definition order :: "jsstring \<Rightarrow> jsval" where
  "order k =
     (if k = js ''high'' then Number 3
      else if k = js ''medium'' then Number 2
      else if k = js ''low'' then Number 1
      else if k \<in> set Object_prototype_keys then Object
      else Undefined)"

text \<open>\<open>v ?? d\<close>.\<close>

definition nullish_or :: "jsval \<Rightarrow> rat \<Rightarrow> jsval" where
  "nullish_or v d = (case v of Undefined \<Rightarrow> Number d | _ \<Rightarrow> v)"

text \<open>\<open>x - y\<close>: both operands go through ToNumber, which maps an object whose string form
  is not a numeral, and \<open>undefined\<close>, to NaN.\<close>

definition js_minus :: "jsval \<Rightarrow> jsval \<Rightarrow> jsnum" where
  "js_minus x y = (case (x, y) of (Number a, Number b) \<Rightarrow> Num (a - b) | _ \<Rightarrow> NaN)"

text \<open>Unary minus.\<close>

definition js_neg :: "jsnum \<Rightarrow> jsnum" where
  "js_neg v = (case v of Num a \<Rightarrow> Num (- a) | NaN \<Rightarrow> NaN)"

definition score_value :: "rat option \<Rightarrow> jsval" where
  "score_value v = (case v of None \<Rightarrow> Undefined | Some x \<Rightarrow> Number x)"

text \<open>The comparator passed to \<open>sort\<close>. \<open>localeCompare\<close> depends on the host's locale and is
  a parameter.\<close>

definition compare :: "(jsstring \<Rightarrow> jsstring \<Rightarrow> rat) \<Rightarrow> tab \<Rightarrow> ScoredFeature \<Rightarrow> ScoredFeature \<Rightarrow> jsnum" where
  "compare localeCompare st a b =
     (let cmp =
        (case sortField st of
           Name \<Rightarrow> Num (localeCompare (name a) (name b))
         | RiceScore \<Rightarrow>
             js_minus (nullish_or (score_value (rice_score a)) 0)
                      (nullish_or (score_value (rice_score b)) 0)
         | Confidence \<Rightarrow>
             js_minus (nullish_or (order (confidence a)) 0)
                      (nullish_or (order (confidence b)) 0))
      in if sortAsc st then cmp else js_neg cmp)"

text \<open>
  \<open>Array.prototype.sort\<close> with a comparator. ECMAScript reads a NaN result as +0 and
  requires the sort to be stable. Where the comparator, read so, orders the rows
  consistently (ties are transitive, and so are the two strict orders), the result is the
  one stable sorted arrangement, and insertion from the right computes it. That is so for
  the comparator on \<open>rice_score\<close>, on any rows, and for any comparator on two rows that
  tie. Where it is not so, as with a NaN tie among three or more rows of different rank,
  the order is left to the engine, engines differ from one another and from this
  function, and nothing below evaluates \<open>js_sort\<close> on such rows.
\<close>

definition sort_compare :: "('a \<Rightarrow> 'a \<Rightarrow> jsnum) \<Rightarrow> 'a \<Rightarrow> 'a \<Rightarrow> rat" where
  "sort_compare comparefn x y = (case comparefn x y of NaN \<Rightarrow> 0 | Num v \<Rightarrow> v)"

fun insert_sorted :: "('a \<Rightarrow> 'a \<Rightarrow> jsnum) \<Rightarrow> 'a \<Rightarrow> 'a list \<Rightarrow> 'a list" where
  "insert_sorted comparefn x [] = [x]"
| "insert_sorted comparefn x (y # ys) =
     (if sort_compare comparefn x y \<le> 0 then x # y # ys
      else y # insert_sorted comparefn x ys)"

definition js_sort :: "('a \<Rightarrow> 'a \<Rightarrow> jsnum) \<Rightarrow> 'a list \<Rightarrow> 'a list" where
  "js_sort comparefn xs = foldr (insert_sorted comparefn) xs []"

text \<open>\<open>[...opportunities].sort(...)\<close>: the rows of the table, in display order.\<close>

definition sorted_rows :: "(jsstring \<Rightarrow> jsstring \<Rightarrow> rat) \<Rightarrow> tab \<Rightarrow> ScoredFeature list \<Rightarrow> ScoredFeature list" where
  "sorted_rows localeCompare st opportunities = js_sort (compare localeCompare st) opportunities"

text \<open>The sort key on \<open>rice_score\<close>: \<open>rice_score ?? 0\<close>.\<close>

definition rice_key :: "ScoredFeature \<Rightarrow> rat" where
  "rice_key a = (case rice_score a of None \<Rightarrow> 0 | Some x \<Rightarrow> x)"

text \<open>The tab sorted on a given field, and a collation for the cases in which none is
  consulted, the fields \<open>rice_score\<close> and \<open>confidence\<close>.\<close>

definition tab_on :: "SortField \<Rightarrow> bool \<Rightarrow> tab" where
  "tab_on field asc = \<lparr>sortField = field, sortAsc = asc\<rparr>"

definition no_collation :: "jsstring \<Rightarrow> jsstring \<Rightarrow> rat" where
  "no_collation x y = 0"

text \<open>The rank that the comparator gives a confidence whose name is not inherited from
  \<open>Object.prototype\<close>.\<close>

definition confidence_rank :: "jsstring \<Rightarrow> rat" where
  "confidence_rank k =
     (if k = js ''high'' then 3 else if k = js ''medium'' then 2
      else if k = js ''low'' then 1 else 0)"

text \<open>An opportunity with a given name, confidence and score, the other fields empty.\<close>

definition opportunity :: "string \<Rightarrow> string \<Rightarrow> rat option \<Rightarrow> ScoredFeature" where
  "opportunity n c r =
     \<lparr>name = js n, description = [], confidence = js c, rice_score = r, category = None\<rparr>"

section \<open>Concrete inputs\<close>

definition empty_cache :: history_cache where
  "empty_cache = \<lparr>entries = [], store_failure = None\<rparr>"

definition full_cache :: history_cache where
  "full_cache = \<lparr>entries = [], store_failure = Some (js ''quota exceeded'')\<rparr>"

definition response_with :: "string \<Rightarrow> QueryResponse" where
  "response_with spec =
     \<lparr>top_feature = None, feature_spec_markdown = Some (js spec),
      ui_proposals_markdown = None, task_breakdown_markdown = None,
      all_opportunities = None\<rparr>"

definition blank_page :: page where
  "blank_page = (initial_page empty_cache)\<lparr>query := js ''   ''\<rparr>"

text \<open>A page on which one run for the query \<open>q\<close> with the file \<open>a.pdf\<close> is outstanding.\<close>

definition running_page :: "history_cache \<Rightarrow> page" where
  "running_page h = exec [SetQuery (js ''q''), ToggleFile (js ''a.pdf''), ClickRun] (initial_page h)"

text \<open>A page on which a run is submitted while an earlier one is outstanding: the first
  by the Run button, the second, for another query and with the file \<open>a.pdf\<close>, by the
  keyboard shortcut.\<close>

definition two_runs :: "event list" where
  "two_runs =
     [SetQuery (js ''Which bugs hurt most?''), ClickRun,
      SetQuery (js ''What should we build next?''), ToggleFile (js ''a.pdf''),
      KeyDown (js ''Enter'') False True]"

text \<open>Then the response of the second run arrives, and after it that of the first.\<close>

definition late_response :: "event list" where
  "late_response =
     two_runs @
     [Settle 1 (Resolved (response_with ''newer'')) (js ''id-2'') 2000,
      Settle 0 (Resolved (response_with ''stale'')) (js ''id-1'') 3000]"

text \<open>The first two timers of a freshly mounted progress display fire.\<close>

definition two_fires :: "loading_event list" where
  "two_fires = [Fire 0, Fire 1]"

text \<open>A response without any of its fields, as the JSON text \<open>{}\<close> gives.\<close>

definition empty_response :: QueryResponse where
  "empty_response =
     \<lparr>top_feature = None, feature_spec_markdown = None, ui_proposals_markdown = None,
      task_breakdown_markdown = None, all_opportunities = None\<rparr>"

text \<open>A cache with one entry, whose identifier the first call of \<open>generateId\<close> returned;
  a page over it with the query \<open>q\<close> typed and the file \<open>a.pdf\<close> selected, nothing
  submitted yet; and what happens after that query is submitted, before its response arrives: the query
  is edited, another file is selected, a second run is started by the keyboard shortcut,
  and the request of that second run is rejected.\<close>

definition stored_cache :: history_cache where
  "stored_cache =
     \<lparr>entries =
        [\<lparr>entry_id = fst (generateId 0), entry_query = js ''p'', entry_files = [],
          entry_timestamp = 1, entry_result = empty_response\<rparr>],
      store_failure = None\<rparr>"

definition typed_page :: page where
  "typed_page =
     \<lparr>query = js ''q'', selectedFiles = [js ''a.pdf''], isRunning = False, result = None,
      history = stored_cache, toasts = [], outstanding = []\<rparr>"

definition while_waiting :: "event list" where
  "while_waiting =
     [SetQuery (js ''r''), ToggleFile (js ''b.pdf''), KeyDown (js ''Enter'') False True,
      Settle 1 (Rejected NonError) [] 5]"

section \<open>Facts about strings\<close>

lemma trim_empty_iff: "trim q = [] \<longleftrightarrow> (\<forall>c \<in> set q. isWhiteSpace c)"
proof
  assume "trim q = []"
  then have "dropWhile isWhiteSpace (rev (dropWhile isWhiteSpace q)) = []"
    by (simp add: trim_def)
  then have all: "\<forall>c \<in> set (dropWhile isWhiteSpace q). isWhiteSpace c"
    by simp
  have "dropWhile isWhiteSpace q = []"
  proof (cases "dropWhile isWhiteSpace q")
    case Nil
    then show ?thesis .
  next
    case (Cons c cs)
    then have "\<not> isWhiteSpace c"
      using hd_dropWhile [of isWhiteSpace q] by simp
    moreover have "isWhiteSpace c"
      using all Cons by simp
    ultimately show ?thesis by simp
  qed
  then show "\<forall>c \<in> set q. isWhiteSpace c"
    by simp
next
  assume "\<forall>c \<in> set q. isWhiteSpace c"
  then have dw: "dropWhile isWhiteSpace q = []"
    by simp
  show "trim q = []"
    by (simp only: trim_def dw rev.simps dropWhile.simps)
qed

lemma trim_three_spaces: "trim (js ''   '') = []"
  by (simp add: trim_def js_def isWhiteSpace_def)

lemma trim_letter: "trim (js ''q'') \<noteq> []"
  by (simp add: trim_def js_def isWhiteSpace_def)

section \<open>The controller: rejected submissions\<close>

text \<open>
  C2. If the query is empty or consists of white space only, \<open>handleRun\<close> returns at its
  guard: the page is left exactly as it was. In particular \<open>isRunning\<close> does not change,
  no request is added to the outstanding ones, the displayed result is not cleared and
  the history cache keeps its entries. The same holds for both ways of reaching
  \<open>handleRun\<close>, the Run button and the keyboard shortcut.
\<close>

theorem blank_query_submit_changes_nothing:
  assumes "\<forall>c \<in> set (query s). isWhiteSpace c"
  shows "handleRun s = s
       \<and> step ClickRun s = s
       \<and> step (KeyDown key metaKey ctrlKey) s = s
       \<and> isRunning (handleRun s) = isRunning s
       \<and> outstanding (handleRun s) = outstanding s
       \<and> result (handleRun s) = result s
       \<and> entries (history (handleRun s)) = entries (history s)"
proof -
  have blank: "trim (query s) = []"
    using assms by (simp add: trim_empty_iff)
  have run: "handleRun s = s"
    using blank by (simp add: handleRun_def)
  show ?thesis
    using run by simp
qed

theorem blank_query_submit_changes_nothing_witness:
  "list_all isWhiteSpace (query blank_page)
   \<and> query blank_page = js ''   ''
   \<and> handleRun blank_page = blank_page
   \<and> step ClickRun blank_page = blank_page
   \<and> step (KeyDown (js ''Enter'') False True) blank_page = blank_page"
proof -
  have q: "query blank_page = js ''   ''"
    by (simp add: blank_page_def)
  have h: "\<forall>c \<in> set (query blank_page). isWhiteSpace c"
    by (simp add: q js_def isWhiteSpace_def)
  show ?thesis
    using h q blank_query_submit_changes_nothing [OF h, of "js ''Enter''" False True]
    by (simp add: list_all_iff)
qed

section \<open>The controller: settled runs\<close>

lemma settle_resolved:
  assumes "i < length (outstanding s)" and "store_failure (history s) = None"
  shows "step (Settle i (Resolved response) new_id now) s =
         s\<lparr>outstanding := take i (outstanding s) @ drop (Suc i) (outstanding s),
           result := Some response,
           history := (history s)\<lparr>entries :=
              entry_of (outstanding s ! i) new_id now response # entries (history s)\<rparr>,
           toasts := toasts s @ [ToastSuccess (js ''Analysis complete'')],
           isRunning := False\<rparr>"
  using assms by (simp add: resume_def addEntry_def entry_of_def)

lemma settle_resolved_store_failure:
  assumes "i < length (outstanding s)" and "store_failure (history s) = Some m"
  shows "step (Settle i (Resolved response) new_id now) s =
         s\<lparr>outstanding := take i (outstanding s) @ drop (Suc i) (outstanding s),
           result := Some response,
           toasts := toasts s @ [ToastError m],
           isRunning := False\<rparr>"
  using assms by (simp add: resume_def addEntry_def catch_finally_def)

lemma settle_rejected:
  assumes "i < length (outstanding s)"
  shows "step (Settle i (Rejected err) new_id now) s =
         s\<lparr>outstanding := take i (outstanding s) @ drop (Suc i) (outstanding s),
           toasts := toasts s @
             [ToastError (case err of JsError m \<Rightarrow> m | NonError \<Rightarrow> js ''Analysis failed'')],
           isRunning := False\<rparr>"
  using assms by (simp add: resume_def catch_finally_def)

lemma handleRun_accepts:
  assumes "trim (query s) \<noteq> []"
  shows "handleRun s =
         s\<lparr>isRunning := True, result := None,
           outstanding := outstanding s @ [\<lparr>run_query = query s, run_files = selectedFiles s\<rparr>]\<rparr>"
  using assms by (simp add: handleRun_def)

lemma running_page_eq:
  "running_page h =
     \<lparr>query = js ''q'', selectedFiles = [js ''a.pdf''], isRunning = True, result = None,
      history = h, toasts = [],
      outstanding = [\<lparr>run_query = js ''q'', run_files = [js ''a.pdf'']\<rparr>]\<rparr>"
  by (simp add: running_page_def exec_def initial_page_def toggleFile_def button_disabled_def
      handleRun_def trim_def js_def isWhiteSpace_def)




section \<open>The controller: successful runs\<close>

lemma outstanding_resume: "outstanding (resume r outcome new_id now s) = outstanding s"
  by (cases outcome; cases "store_failure (history s)")
    (simp_all add: resume_def catch_finally_def addEntry_def)

lemma store_failure_resume:
  "store_failure (history (resume r outcome new_id now s)) = store_failure (history s)"
  by (cases outcome; cases "store_failure (history s)")
    (simp_all add: resume_def catch_finally_def addEntry_def)

lemma outstanding_handleRun:
  "outstanding (handleRun s) = outstanding s
   \<or> outstanding (handleRun s) =
       outstanding s @ [\<lparr>run_query = query s, run_files = selectedFiles s\<rparr>]"
  by (simp add: handleRun_def)

lemma step_keeps_position:
  assumes "k < length (outstanding s)" and "track [ev] k = Some k'"
  shows "k' < length (outstanding (step ev s))
       \<and> outstanding (step ev s) ! k' = outstanding s ! k"
proof (cases ev)
  case (SetQuery q)
  then show ?thesis using assms by simp
next
  case (ToggleFile f)
  then show ?thesis using assms by (simp add: toggleFile_def)
next
  case ClickRun
  then show ?thesis
    using assms outstanding_handleRun [of s] by (auto simp: nth_append)
next
  case (KeyDown key metaKey ctrlKey)
  then show ?thesis
    using assms outstanding_handleRun [of s] by (auto simp: nth_append)
next
  case (Settle j outcome new_id now)
  have neq: "j \<noteq> k" and k': "k' = (if j < k then k - 1 else k)"
    using assms(2) Settle by (simp_all split: if_splits)
  show ?thesis
  proof (cases "j < length (outstanding s)")
    case False
    then show ?thesis
      using assms(1) k' Settle by simp
  next
    case True
    have out: "outstanding (step ev s) =
        take j (outstanding s) @ drop (Suc j) (outstanding s)"
      using True Settle by (simp add: outstanding_resume)
    show ?thesis
    proof (cases "j < k")
      case True
      then have "k' = k - 1" and "j \<le> k - 1" and "Suc (k - 1) = k"
        using k' by simp_all
      then show ?thesis
        unfolding out using assms(1) True \<open>j < length (outstanding s)\<close>
        by (simp add: nth_append min_def)
    next
      case False
      then have "k' = k" and "k < j"
        using k' neq by simp_all
      then show ?thesis
        unfolding out using assms(1) \<open>j < length (outstanding s)\<close>
        by (simp add: nth_append min_def)
    qed
  qed
qed

lemma track_Cons:
  "track (ev # evs) k = (case track [ev] k of None \<Rightarrow> None | Some k1 \<Rightarrow> track evs k1)"
  by (cases ev) simp_all

lemma exec_keeps_position:
  "k < length (outstanding s) \<Longrightarrow> track evs k = Some k' \<Longrightarrow>
     k' < length (outstanding (exec evs s))
     \<and> outstanding (exec evs s) ! k' = outstanding s ! k"
proof (induction evs arbitrary: s k)
  case Nil
  then show ?case by (simp add: exec_def)
next
  case (Cons ev evs)
  from Cons.prems(2) obtain k1 where one: "track [ev] k = Some k1" and rest: "track evs k1 = Some k'"
    by (auto simp: track_Cons [of ev evs] split: option.splits)
  have pos: "k1 < length (outstanding (step ev s))"
    and same: "outstanding (step ev s) ! k1 = outstanding s ! k"
    using step_keeps_position [OF Cons.prems(1) one] by simp_all
  have "k' < length (outstanding (exec evs (step ev s)))
     \<and> outstanding (exec evs (step ev s)) ! k' = outstanding (step ev s) ! k1"
    by (rule Cons.IH [OF pos rest])
  then show ?case
    using same by (simp add: exec_def del: step.simps)
qed

lemma generateId_fresh:
  assumes "ids_issued n h"
  shows "fst (generateId n) \<notin> entry_id ` set (entries h)"
proof
  assume "fst (generateId n) \<in> entry_id ` set (entries h)"
  then obtain e where e: "e \<in> set (entries h)" and id: "entry_id e = fst (generateId n)"
    by auto
  have "entry_id e \<in> set (map (\<lambda>k. fst (generateId k)) [0..<n])"
    using assms e by (simp add: ids_issued_def list_all_iff)
  then obtain k where "k < n" and "entry_id e = fst (generateId k)"
    by auto
  then have "length (fst (generateId n)) = length (fst (generateId k))" and "k < n"
    using id by simp_all
  then show False
    by (simp add: generateId_def)
qed

lemma ids_issued_addEntry:
  assumes "ids_issued n h" and "entry_id e = fst (generateId n)"
  shows "ids_issued (snd (generateId n)) (h\<lparr>entries := e # entries h\<rparr>)"
proof -
  have fresh: "entry_id e \<notin> entry_id ` set (entries h)"
    using generateId_fresh [OF assms(1)] assms(2) by simp
  have next_call: "snd (generateId n) = Suc n"
    by (simp add: generateId_def)
  have old: "\<forall>x \<in> set (entries h). entry_id x \<in> (\<lambda>k. fst (generateId k)) ` {0..<Suc n}"
    using assms(1) by (auto simp: ids_issued_def list_all_iff)
  show ?thesis
    unfolding next_call using assms fresh old
    by (simp add: ids_issued_def list_all_iff)
qed

lemma ids_issued_empty: "ids_issued n (h\<lparr>entries := []\<rparr>)"
  by (simp add: ids_issued_def)

lemma ids_issued_later: "ids_issued n h \<Longrightarrow> ids_issued (Suc n) h"
  by (auto simp: ids_issued_def list_all_iff)

text \<open>
  C3. A run is submitted from the page \<open>s0\<close> with a query that passes the guard; then any
  events happen, among them possibly submissions and settlements of other runs, which
  leave the request of this run outstanding, at position \<open>i\<close> of the page \<open>s\<close>. The store
  accepts writes, and the identifiers in the cache are distinct ones that the first \<open>n\<close>
  calls of \<open>generateId\<close> returned. When the request now resolves, the run ends in success:
  the response becomes the displayed result, and exactly one entry is put into the cache,
  at its head. The entry holds the query and the file selection of the page \<open>s0\<close>, from
  which the run was submitted, whatever was edited since; the response itself; the time
  that \<open>Date.now\<close> returned; and the identifier that \<open>generateId\<close> returns, which no entry
  of the cache has, so that the identifiers stay distinct and issued. A run that fails, by
  a rejected request or by the store refusing the write, leaves the entries as they were.
\<close>

theorem successful_run_stores_result_and_one_fresh_entry:
  assumes "trim (query s0) \<noteq> []"
    and "track evs (length (outstanding s0)) = Some i"
    and "s = exec evs (handleRun s0)"
    and "store_failure (history s) = None"
    and "ids_issued n (history s)"
  shows "result (step (Settle i (Resolved response) (fst (generateId n)) now) s) = Some response
       \<and> controller_state (step (Settle i (Resolved response) (fst (generateId n)) now) s)
           = Succeeded
       \<and> entries (history (step (Settle i (Resolved response) (fst (generateId n)) now) s)) =
           \<lparr>entry_id = fst (generateId n), entry_query = query s0,
            entry_files = selectedFiles s0, entry_timestamp = now,
            entry_result = response\<rparr> # entries (history s)
       \<and> length (entries (history
             (step (Settle i (Resolved response) (fst (generateId n)) now) s))) =
           Suc (length (entries (history s)))
       \<and> fst (generateId n) \<notin> entry_id ` set (entries (history s))
       \<and> ids_issued (snd (generateId n))
             (history (step (Settle i (Resolved response) (fst (generateId n)) now) s))
       \<and> entries (history (step (Settle i (Rejected err) new_id now) s)) = entries (history s)
       \<and> entries (history (step (Settle i (Resolved response) new_id now)
             (s\<lparr>history := (history s)\<lparr>store_failure := Some m\<rparr>\<rparr>))) = entries (history s)"
proof -
  let ?r = "\<lparr>run_query = query s0, run_files = selectedFiles s0\<rparr>"
  let ?e = "\<lparr>entry_id = fst (generateId n), entry_query = query s0,
            entry_files = selectedFiles s0, entry_timestamp = now,
            entry_result = response\<rparr>"
  have submitted: "outstanding (handleRun s0) = outstanding s0 @ [?r]"
    by (simp add: handleRun_accepts [OF assms(1)])
  then have k: "length (outstanding s0) < length (outstanding (handleRun s0))"
    and at_k: "outstanding (handleRun s0) ! length (outstanding s0) = ?r"
    by simp_all
  have pos: "i < length (outstanding s)" and run: "outstanding s ! i = ?r"
    unfolding assms(3) using exec_keeps_position [OF k assms(2)] at_k by simp_all
  have ok: "step (Settle i (Resolved response) (fst (generateId n)) now) s =
         s\<lparr>outstanding := take i (outstanding s) @ drop (Suc i) (outstanding s),
           result := Some response,
           history := (history s)\<lparr>entries := ?e # entries (history s)\<rparr>,
           toasts := toasts s @ [ToastSuccess (js ''Analysis complete'')],
           isRunning := False\<rparr>"
    unfolding settle_resolved [OF pos assms(4)] run by (simp add: entry_of_def)
  have fresh: "fst (generateId n) \<notin> entry_id ` set (entries (history s))"
    by (rule generateId_fresh [OF assms(5)])
  have issued: "ids_issued (snd (generateId n))
      ((history s)\<lparr>entries := ?e # entries (history s)\<rparr>)"
    by (rule ids_issued_addEntry [OF assms(5)]) simp
  have rej: "entries (history (step (Settle i (Rejected err) new_id now) s)) = entries (history s)"
    by (simp add: settle_rejected [OF pos] del: step.simps)
  have full: "entries (history (step (Settle i (Resolved response) new_id now)
             (s\<lparr>history := (history s)\<lparr>store_failure := Some m\<rparr>\<rparr>))) = entries (history s)"
    using pos by (simp add: resume_def addEntry_def catch_finally_def)
  show ?thesis
    unfolding ok using fresh issued rej full
    by (simp add: controller_state_def del: step.simps)
qed

lemma waiting_page_eq:
  "exec while_waiting (handleRun typed_page) =
     \<lparr>query = js ''r'', selectedFiles = [js ''a.pdf'', js ''b.pdf''], isRunning = False,
      result = None, history = stored_cache,
      toasts = [ToastError (js ''Analysis failed'')],
      outstanding = [\<lparr>run_query = js ''q'', run_files = [js ''a.pdf'']\<rparr>]\<rparr>"
  by (simp add: while_waiting_def typed_page_def exec_def handleRun_def toggleFile_def
      resume_def catch_finally_def trim_def js_def isWhiteSpace_def)

theorem successful_run_stores_result_and_one_fresh_entry_witness:
  "trim (query typed_page) \<noteq> []
   \<and> track while_waiting (length (outstanding typed_page)) = Some 0
   \<and> store_failure (history (exec while_waiting (handleRun typed_page))) = None
   \<and> ids_issued 1 (history (exec while_waiting (handleRun typed_page)))
   \<and> result (step (Settle 0 (Resolved (response_with ''spec'')) (fst (generateId 1))
        1700000000000) (exec while_waiting (handleRun typed_page))) =
       Some (response_with ''spec'')
   \<and> entries (history (step (Settle 0 (Resolved (response_with ''spec'')) (fst (generateId 1))
        1700000000000) (exec while_waiting (handleRun typed_page)))) =
       [\<lparr>entry_id = fst (generateId 1), entry_query = js ''q'', entry_files = [js ''a.pdf''],
         entry_timestamp = 1700000000000, entry_result = response_with ''spec''\<rparr>,
        \<lparr>entry_id = fst (generateId 0), entry_query = js ''p'', entry_files = [],
         entry_timestamp = 1, entry_result = empty_response\<rparr>]
   \<and> fst (generateId 1) \<noteq> fst (generateId 0)"
proof -
  have h1: "trim (query typed_page) \<noteq> []"
    by (simp add: typed_page_def trim_letter)
  have h2: "track while_waiting (length (outstanding typed_page)) = Some 0"
    by (simp add: while_waiting_def typed_page_def)
  have h3: "exec while_waiting (handleRun typed_page) = exec while_waiting (handleRun typed_page)"
    by (rule refl)
  have h4: "store_failure (history (exec while_waiting (handleRun typed_page))) = None"
    by (simp add: waiting_page_eq stored_cache_def)
  have h5: "ids_issued 1 (history (exec while_waiting (handleRun typed_page)))"
    by (simp add: waiting_page_eq stored_cache_def ids_issued_def)
  have q: "query typed_page = js ''q''" and f: "selectedFiles typed_page = [js ''a.pdf'']"
    by (simp_all add: typed_page_def)
  have c: "entries (history (exec while_waiting (handleRun typed_page))) =
       [\<lparr>entry_id = fst (generateId 0), entry_query = js ''p'', entry_files = [],
         entry_timestamp = 1, entry_result = empty_response\<rparr>]"
    by (simp add: waiting_page_eq stored_cache_def)
  have d: "fst (generateId 1) \<noteq> fst (generateId 0)"
    by (simp add: generateId_def)
  show ?thesis
    using h1 h2 h4 h5 d
      successful_run_stores_result_and_one_fresh_entry [OF h1 h2 h3 h4 h5,
        where response = "response_with ''spec''" and now = 1700000000000]
    unfolding q f c
    by (simp del: step.simps)
qed

text \<open>
  C5, as stated, fails for a query that is not empty but consists of white space only:
  three spaces are a non-empty string, and \<open>handleRun\<close> returns at its guard, so the
  controller does not enter Running and no request is issued.
\<close>

theorem white_space_query_does_not_enter_running:
  "query blank_page \<noteq> []
   \<and> query blank_page = js ''   ''
   \<and> isRunning blank_page = False
   \<and> isRunning (handleRun blank_page) = False
   \<and> controller_state (handleRun blank_page) = Idle
   \<and> outstanding (handleRun blank_page) = []"
  by (simp add: blank_page_def initial_page_def handleRun_def trim_three_spaces
      controller_state_def) (simp add: js_def)

text \<open>
  C5, amended: for every query that is neither empty nor white space only, that is, one
  that passes the guard of \<open>handleRun\<close>. Then a call of \<open>handleRun\<close> sets \<open>isRunning\<close> and
  issues one request. Whichever way an outstanding request settles, the \<open>finally\<close> block
  resets \<open>isRunning\<close>, and exactly one notification is emitted on the way: the success
  notification if the request is resolved and the entry is stored, an error notification
  if the request is rejected or the store refuses the entry. So after the settlement the
  controller reads as Succeeded or as Failed, as the outcome determines, and not as
  Running.
\<close>

theorem run_enters_running_once_and_ends_in_one_outcome:
  assumes "trim (query s) \<noteq> []"
    and "i < length (outstanding t)"
  shows "controller_state (handleRun s) = Running
       \<and> outstanding (handleRun s) =
           outstanding s @ [\<lparr>run_query = query s, run_files = selectedFiles s\<rparr>]
       \<and> isRunning (step (Settle i outcome new_id now) t) = False
       \<and> length (toasts (step (Settle i outcome new_id now) t)) = Suc (length (toasts t))
       \<and> controller_state (step (Settle i outcome new_id now) t) =
           (case outcome of
              Resolved response \<Rightarrow>
                (if store_failure (history t) = None then Succeeded else Failed)
            | Rejected err \<Rightarrow> Failed)"
proof -
  have enter: "controller_state (handleRun s) = Running
       \<and> outstanding (handleRun s) =
           outstanding s @ [\<lparr>run_query = query s, run_files = selectedFiles s\<rparr>]"
    by (simp add: handleRun_accepts [OF assms(1)] controller_state_def)
  have leave: "isRunning (step (Settle i outcome new_id now) t) = False
       \<and> length (toasts (step (Settle i outcome new_id now) t)) = Suc (length (toasts t))
       \<and> controller_state (step (Settle i outcome new_id now) t) =
           (case outcome of
              Resolved response \<Rightarrow>
                (if store_failure (history t) = None then Succeeded else Failed)
            | Rejected err \<Rightarrow> Failed)"
  proof (cases outcome)
    case (Rejected err)
    show ?thesis
      unfolding Rejected settle_rejected [OF assms(2)]
      by (simp add: controller_state_def)
  next
    case (Resolved response)
    show ?thesis
    proof (cases "store_failure (history t)")
      case None
      show ?thesis
        unfolding Resolved settle_resolved [OF assms(2) None]
        by (simp add: controller_state_def None)
    next
      case (Some m)
      show ?thesis
        unfolding Resolved settle_resolved_store_failure [OF assms(2) Some]
        by (simp add: controller_state_def Some)
    qed
  qed
  show ?thesis
    using enter leave by blast
qed

theorem run_enters_running_once_and_ends_in_one_outcome_witness:
  "trim (query (running_page full_cache)) \<noteq> []
   \<and> 0 < length (outstanding (running_page full_cache))
   \<and> controller_state (handleRun (running_page full_cache)) = Running
   \<and> controller_state (step (Settle 0 (Resolved (response_with ''spec'')) (js ''id-1'') 5)
        (running_page full_cache)) = Failed
   \<and> controller_state (step (Settle 0 (Resolved (response_with ''spec'')) (js ''id-1'') 5)
        (running_page empty_cache)) = Succeeded
   \<and> controller_state (step (Settle 0 (Rejected NonError) (js ''id-1'') 5)
        (running_page empty_cache)) = Failed"
proof -
  have h1: "trim (query (running_page full_cache)) \<noteq> []"
    by (simp add: running_page_eq trim_letter)
  have h2: "0 < length (outstanding (running_page full_cache))"
    by (simp add: running_page_eq)
  have h3: "0 < length (outstanding (running_page empty_cache))"
    by (simp add: running_page_eq)
  show ?thesis
    using h1 h2
      run_enters_running_once_and_ends_in_one_outcome [OF h1 h2,
        of "Resolved (response_with ''spec'')" "js ''id-1''" 5]
      run_enters_running_once_and_ends_in_one_outcome [OF h1 h3,
        of "Resolved (response_with ''spec'')" "js ''id-1''" 5]
      run_enters_running_once_and_ends_in_one_outcome [OF h1 h3,
        of "Rejected NonError" "js ''id-1''" 5]
    by (simp add: running_page_eq empty_cache_def full_cache_def del: step.simps)
qed

section \<open>The controller: overlapping runs\<close>

lemma two_runs_eq:
  "exec two_runs (initial_page h) =
     \<lparr>query = js ''What should we build next?'', selectedFiles = [js ''a.pdf''],
      isRunning = True, result = None, history = h, toasts = [],
      outstanding =
        [\<lparr>run_query = js ''Which bugs hurt most?'', run_files = []\<rparr>,
         \<lparr>run_query = js ''What should we build next?'', run_files = [js ''a.pdf'']\<rparr>]\<rparr>"
  by (simp add: two_runs_def exec_def initial_page_def toggleFile_def button_disabled_def
      handleRun_def trim_def js_def isWhiteSpace_def)

lemma late_response_eq:
  "exec late_response (initial_page empty_cache) =
     \<lparr>query = js ''What should we build next?'', selectedFiles = [js ''a.pdf''],
      isRunning = False, result = Some (response_with ''stale''),
      history = \<lparr>entries =
        [\<lparr>entry_id = js ''id-1'', entry_query = js ''Which bugs hurt most?'',
          entry_files = [], entry_timestamp = 3000, entry_result = response_with ''stale''\<rparr>,
         \<lparr>entry_id = js ''id-2'', entry_query = js ''What should we build next?'',
          entry_files = [js ''a.pdf''], entry_timestamp = 2000,
          entry_result = response_with ''newer''\<rparr>],
        store_failure = None\<rparr>,
      toasts = [ToastSuccess (js ''Analysis complete''), ToastSuccess (js ''Analysis complete'')],
      outstanding = []\<rparr>"
proof -
  have "exec late_response (initial_page empty_cache) =
        step (Settle 0 (Resolved (response_with ''stale'')) (js ''id-1'') 3000)
          (step (Settle 1 (Resolved (response_with ''newer'')) (js ''id-2'') 2000)
            (exec two_runs (initial_page empty_cache)))"
    by (simp add: late_response_def exec_def del: step.simps)
  then show ?thesis
    unfolding two_runs_eq
    by (simp add: resume_def addEntry_def empty_cache_def)
qed

lemma responses_differ: "response_with ''stale'' \<noteq> response_with ''newer''"
  by (simp add: response_with_def js_def)

text \<open>
  C1, as stated, fails. The first run is submitted by the Run button; while it is
  outstanding, a second run for another query is submitted by the keyboard shortcut. The
  response of the second run arrives and is displayed; then the late response of the first
  run arrives. It replaces the displayed result of the newer run, and an entry for the
  stale run is put at the head of the history.
\<close>

theorem late_response_overwrites_newer_result:
  "result (exec late_response (initial_page empty_cache)) = Some (response_with ''stale'')
   \<and> response_with ''stale'' \<noteq> response_with ''newer''
   \<and> map entry_query (entries (history (exec late_response (initial_page empty_cache)))) =
       [js ''Which bugs hurt most?'', js ''What should we build next?'']
   \<and> map entry_result (entries (history (exec late_response (initial_page empty_cache)))) =
       [response_with ''stale'', response_with ''newer'']"
  by (simp add: late_response_eq responses_differ)

text \<open>
  C1, amended. The controller keeps no run identifier: the response of every outstanding
  run is applied when it arrives, whichever run it belongs to. Let two runs be
  outstanding, the one at position \<open>i\<close> submitted before the one at position \<open>j\<close>, and let the
  store accept writes. If the response of the later run arrives first, it is displayed;
  when the response of the earlier run arrives after it, that response replaces the
  displayed one, and the history then holds an entry for the earlier run at its head,
  before the entry of the later run. If the response of the earlier run arrives while the
  later run is still outstanding, it is displayed as well.
\<close>

theorem every_response_is_applied_on_arrival:
  assumes "i < j" and "j < length (outstanding s)" and "store_failure (history s) = None"
  shows "result (step (Settle j (Resolved newer) id_j now_j) s) = Some newer
       \<and> result (step (Settle i (Resolved stale) id_i now_i)
            (step (Settle j (Resolved newer) id_j now_j) s)) = Some stale
       \<and> entries (history (step (Settle i (Resolved stale) id_i now_i)
            (step (Settle j (Resolved newer) id_j now_j) s))) =
           entry_of (outstanding s ! i) id_i now_i stale
           # entry_of (outstanding s ! j) id_j now_j newer
           # entries (history s)
       \<and> result (step (Settle i (Resolved stale) id_i now_i) s) = Some stale
       \<and> outstanding s ! j \<in> set (outstanding (step (Settle i (Resolved stale) id_i now_i) s))"
proof -
  let ?s1 = "step (Settle j (Resolved newer) id_j now_j) s"
  have s1: "?s1 =
         s\<lparr>outstanding := take j (outstanding s) @ drop (Suc j) (outstanding s),
           result := Some newer,
           history := (history s)\<lparr>entries :=
              entry_of (outstanding s ! j) id_j now_j newer # entries (history s)\<rparr>,
           toasts := toasts s @ [ToastSuccess (js ''Analysis complete'')],
           isRunning := False\<rparr>"
    using assms(2,3) by (rule settle_resolved)
  have i_out: "i < length (outstanding ?s1)"
    unfolding s1 using assms(1,2) by simp
  have store: "store_failure (history ?s1) = None"
    unfolding s1 using assms(3) by simp
  have same_run: "outstanding ?s1 ! i = outstanding s ! i"
    unfolding s1 using assms(1,2) by (simp add: nth_append)
  have s2: "result (step (Settle i (Resolved stale) id_i now_i) ?s1) = Some stale
       \<and> entries (history (step (Settle i (Resolved stale) id_i now_i) ?s1)) =
           entry_of (outstanding ?s1 ! i) id_i now_i stale # entries (history ?s1)"
    by (simp add: settle_resolved [OF i_out store] del: step.simps)
  have i_first: "i < length (outstanding s)"
    using assms(1,2) by simp
  have early: "result (step (Settle i (Resolved stale) id_i now_i) s) = Some stale
       \<and> outstanding (step (Settle i (Resolved stale) id_i now_i) s) =
           take i (outstanding s) @ drop (Suc i) (outstanding s)"
    by (simp add: settle_resolved [OF i_first assms(3)] del: step.simps)
  have "outstanding s ! j = drop (Suc i) (outstanding s) ! (j - Suc i)"
    using assms(1,2) by simp
  moreover have "j - Suc i < length (drop (Suc i) (outstanding s))"
    using assms(1,2) by simp
  ultimately have still: "outstanding s ! j \<in> set (drop (Suc i) (outstanding s))"
    by (metis nth_mem)
  have r1: "result ?s1 = Some newer"
    unfolding s1 by simp
  have e1: "entries (history ?s1) =
      entry_of (outstanding s ! j) id_j now_j newer # entries (history s)"
    unfolding s1 by simp
  show ?thesis
    using r1 s2 e1 same_run early still
    by (simp del: step.simps)
qed

theorem every_response_is_applied_on_arrival_witness:
  "(0::nat) < 1
   \<and> 1 < length (outstanding (exec two_runs (initial_page empty_cache)))
   \<and> store_failure (history (exec two_runs (initial_page empty_cache))) = None
   \<and> result (step (Settle 0 (Resolved (response_with ''stale'')) (js ''id-1'') 3000)
        (step (Settle 1 (Resolved (response_with ''newer'')) (js ''id-2'') 2000)
          (exec two_runs (initial_page empty_cache)))) = Some (response_with ''stale'')"
proof -
  have h1: "(0::nat) < 1"
    by simp
  have h2: "1 < length (outstanding (exec two_runs (initial_page empty_cache)))"
    by (simp add: two_runs_eq)
  have h3: "store_failure (history (exec two_runs (initial_page empty_cache))) = None"
    by (simp add: two_runs_eq empty_cache_def)
  show ?thesis
    using h2 h3
      every_response_is_applied_on_arrival [OF h1 h2 h3,
        of "response_with ''newer''" "js ''id-2''" 2000 "response_with ''stale''" "js ''id-1''" 3000]
    by (simp del: step.simps)
qed

text \<open>
  C10. The Run button is disabled while a run is in flight, so a click submits nothing
  then. The keyboard shortcut of the text area calls \<open>handleRun\<close> without looking at
  \<open>isRunning\<close>, and \<open>handleRun\<close> does not look at it either: with one run outstanding,
  Ctrl+Enter issues a second request.
\<close>

theorem keyboard_shortcut_submits_while_running:
  "isRunning (exec [SetQuery (js ''q''), ClickRun] (initial_page empty_cache))
   \<and> button_disabled (exec [SetQuery (js ''q''), ClickRun] (initial_page empty_cache))
   \<and> length (outstanding
        (exec [SetQuery (js ''q''), ClickRun, ClickRun] (initial_page empty_cache))) = 1
   \<and> length (outstanding
        (exec [SetQuery (js ''q''), ClickRun, KeyDown (js ''Enter'') False True]
           (initial_page empty_cache))) = 2"
  by (simp add: exec_def initial_page_def button_disabled_def handleRun_def trim_def js_def
      isWhiteSpace_def)

section \<open>The stage choreographer\<close>

lemma delay_of_0: "delay_of 0 = 2000"
  by (simp add: delay_of_def STEP_DURATIONS_def)

lemma mount_eq:
  "mount h0 =
     \<lparr>activeStep = 0, currentStep = 0, timeout = h0, timers = [(h0, 2000)],
      next_handle = Suc h0\<rparr>"
  by (simp add: mount_def setTimeout_def delay_of_0)

lemma inv_mount: "loading_inv (mount h0)"
  by (simp add: mount_eq loading_inv_def delay_of_0)

lemma fire_absent: "h \<notin> fst ` set (timers s) \<Longrightarrow> fire n h s = s"
  by (simp add: fire_def)

lemma fire_pending_advance:
  assumes "timers s = [(h, d)]" and "int (currentStep s) < int n - 1"
  shows "fire n h s =
         s\<lparr>timers := [(next_handle s, delay_of (Suc (currentStep s)))],
           currentStep := Suc (currentStep s), activeStep := Suc (currentStep s),
           timeout := next_handle s, next_handle := Suc (next_handle s)\<rparr>"
  using assms by (simp add: fire_def advanceStep_def setTimeout_def)

lemma fire_pending_hold:
  assumes "timers s = [(h, d)]" and "\<not> int (currentStep s) < int n - 1"
  shows "fire n h s = s\<lparr>timers := []\<rparr>"
  using assms by (simp add: fire_def advanceStep_def)

lemma fire_cases:
  assumes "loading_inv s"
  shows "fire n h s = s
       \<or> (fire n h s = s\<lparr>timers := []\<rparr> \<and> \<not> int (currentStep s) < int n - 1)
       \<or> (h = timeout s \<and> timers s = [(timeout s, delay_of (currentStep s))]
          \<and> int (currentStep s) < int n - 1
          \<and> fire n h s =
              s\<lparr>timers := [(next_handle s, delay_of (Suc (currentStep s)))],
                currentStep := Suc (currentStep s), activeStep := Suc (currentStep s),
                timeout := next_handle s, next_handle := Suc (next_handle s)\<rparr>)"
proof (cases "h \<in> fst ` set (timers s)")
  case False
  then show ?thesis by (simp add: fire_absent)
next
  case True
  then have t: "timers s = [(timeout s, delay_of (currentStep s))]" and h: "h = timeout s"
    using assms by (auto simp: loading_inv_def)
  show ?thesis
  proof (cases "int (currentStep s) < int n - 1")
    case True
    then show ?thesis
      using fire_pending_advance [OF t True] h t by simp
  next
    case False
    then show ?thesis
      using fire_pending_hold [OF t False] h by simp
  qed
qed

lemma inv_fire: "loading_inv s \<Longrightarrow> loading_inv (fire n h s)"
  using fire_cases [of s n h] by (auto simp: loading_inv_def)

lemma cleanup_inv_eq: "loading_inv s \<Longrightarrow> cleanup s = s\<lparr>timers := []\<rparr>"
  by (auto simp: loading_inv_def cleanup_def clearTimeout_def)

lemma inv_cleanup: "loading_inv s \<Longrightarrow> loading_inv (cleanup s)"
  by (simp add: cleanup_inv_eq) (simp add: loading_inv_def)

lemma inv_step: "loading_inv s \<Longrightarrow> loading_inv (loading_step n e s)"
  by (cases e) (simp_all add: inv_fire inv_cleanup)

lemma inv_exec: "loading_inv s \<Longrightarrow> loading_inv (loading_exec n evs s)"
  unfolding loading_exec_def
  by (induction evs arbitrary: s) (simp_all add: inv_step)

lemma step_monotone:
  assumes "loading_inv s"
  shows "activeStep s \<le> activeStep (loading_step n e s)
       \<and> activeStep (loading_step n e s) \<le> Suc (activeStep s)"
proof (cases e)
  case (Fire h)
  then show ?thesis
    using fire_cases [OF assms, of n h] assms by (auto simp: loading_inv_def)
next
  case Unmount
  then show ?thesis
    by (simp add: cleanup_inv_eq [OF assms])
qed

lemma step_in_range:
  assumes "loading_inv s" and "currentStep s < n"
  shows "currentStep (loading_step n e s) < n"
proof (cases e)
  case (Fire h)
  then show ?thesis
    using fire_cases [OF assms(1), of n h] assms(2) by auto
next
  case Unmount
  then show ?thesis
    using assms(2) by (simp add: cleanup_inv_eq [OF assms(1)])
qed

lemma exec_in_range:
  "loading_inv s \<Longrightarrow> currentStep s < n \<Longrightarrow> currentStep (loading_exec n evs s) < n"
  unfolding loading_exec_def
  by (induction evs arbitrary: s) (simp_all add: inv_step step_in_range)

lemma step_at_last_stage:
  assumes "loading_inv s" and "n \<le> Suc (activeStep s)"
  shows "activeStep (loading_step n e s) = activeStep s"
proof (cases e)
  case (Fire h)
  have "\<not> int (currentStep s) < int n - 1"
    using assms by (simp add: loading_inv_def)
  then show ?thesis
    using fire_cases [OF assms(1), of n h] Fire by auto
next
  case Unmount
  then show ?thesis
    by (simp add: cleanup_inv_eq [OF assms(1)])
qed

lemma step_no_timers: "timers s = [] \<Longrightarrow> loading_step n e s = s"
  by (cases e; cases s) (simp_all add: fire_def cleanup_def clearTimeout_def)

lemma exec_no_timers: "timers s = [] \<Longrightarrow> loading_exec n evs s = s"
  unfolding loading_exec_def
  by (induction evs) (simp_all add: step_no_timers)

lemma settle_stops_running:
  assumes "i < length (outstanding t)"
  shows "isRunning (step (Settle i outcome new_id now) t) = False"
proof (cases outcome)
  case (Rejected err)
  show ?thesis
    unfolding Rejected settle_rejected [OF assms] by simp
next
  case (Resolved response)
  show ?thesis
  proof (cases "store_failure (history t)")
    case None
    show ?thesis
      unfolding Resolved settle_resolved [OF assms None] by simp
  next
    case (Some m)
    show ?thesis
      unfolding Resolved settle_resolved_store_failure [OF assms Some] by simp
  qed
qed

lemma two_fires_eq:
  "loading_exec 6 two_fires (mount 0) =
     \<lparr>activeStep = 2, currentStep = 2, timeout = 2, timers = [(2, 5000)], next_handle = 3\<rparr>"
  by (simp add: two_fires_def loading_exec_def mount_eq fire_def advanceStep_def setTimeout_def
      delay_of_def STEP_DURATIONS_def)

text \<open>
  C6. Let \<open>n\<close>, the number of pipeline stages, be positive, and let \<open>s\<close> be the component
  after any sequence of timer firings (and unmounts) since it was mounted. On mounting,
  the stage index is 0 and one timer is set, with the duration of stage 0. In \<open>s\<close> the index
  is below \<open>n\<close>, and the timer table is empty or holds one timer, set with the duration of
  the current stage. Every event leaves the index as it is or increases it by one, so it
  never regresses. When the pending timer fires and the current stage is not the last, the
  index increases by exactly one and a timer with the duration of the new stage is set.
  At the last stage no event changes the index.
\<close>

theorem stage_index_advances_by_one_and_stops_at_last:
  assumes "0 < n" and "s = loading_exec n evs (mount h0)"
  shows "activeStep (mount h0) = 0
       \<and> timers (mount h0) = [(h0, STEP_DURATIONS ! 0)]
       \<and> activeStep s < n
       \<and> (timers s = [] \<or> timers s = [(timeout s, delay_of (activeStep s))])
       \<and> activeStep s \<le> activeStep (loading_step n e s)
       \<and> activeStep (loading_step n e s) \<le> Suc (activeStep s)
       \<and> (Suc (activeStep s) < n \<and> timers s \<noteq> [] \<longrightarrow>
            activeStep (loading_step n (Fire (timeout s)) s) = Suc (activeStep s)
            \<and> timers (loading_step n (Fire (timeout s)) s) =
                [(timeout (loading_step n (Fire (timeout s)) s), delay_of (Suc (activeStep s)))])
       \<and> (Suc (activeStep s) = n \<longrightarrow> activeStep (loading_step n e s) = activeStep s)"
proof -
  have inv: "loading_inv s"
    unfolding assms(2) by (rule inv_exec [OF inv_mount])
  have active: "activeStep s = currentStep s"
    and table: "timers s = [] \<or> timers s = [(timeout s, delay_of (currentStep s))]"
    using inv by (simp_all add: loading_inv_def)
  have "currentStep (mount h0) < n"
    using assms(1) by (simp add: mount_eq)
  then have range: "currentStep s < n"
    unfolding assms(2) by (rule exec_in_range [OF inv_mount])
  have start: "activeStep (mount h0) = 0 \<and> timers (mount h0) = [(h0, STEP_DURATIONS ! 0)]"
    by (simp add: mount_eq STEP_DURATIONS_def)
  have mono: "activeStep s \<le> activeStep (loading_step n e s)
       \<and> activeStep (loading_step n e s) \<le> Suc (activeStep s)"
    by (rule step_monotone [OF inv])
  have advance: "activeStep (loading_step n (Fire (timeout s)) s) = Suc (activeStep s)
       \<and> timers (loading_step n (Fire (timeout s)) s) =
           [(timeout (loading_step n (Fire (timeout s)) s), delay_of (Suc (activeStep s)))]"
    if "Suc (activeStep s) < n" and "timers s \<noteq> []"
  proof -
    have t: "timers s = [(timeout s, delay_of (currentStep s))]"
      using table that(2) by simp
    have c: "int (currentStep s) < int n - 1"
      using that(1) active by simp
    show ?thesis
      by (simp add: fire_pending_advance [OF t c] active)
  qed
  have hold: "activeStep (loading_step n e s) = activeStep s" if "Suc (activeStep s) = n"
    using step_at_last_stage [OF inv, of n e] that by simp
  show ?thesis
    using start range active table mono advance hold by simp
qed

theorem stage_index_advances_by_one_and_stops_at_last_witness:
  "(0::nat) < 6
   \<and> activeStep (loading_exec 6 two_fires (mount 0)) = 2
   \<and> timers (loading_exec 6 two_fires (mount 0)) = [(2, 5000)]
   \<and> activeStep (loading_step 6 (Fire 2) (loading_exec 6 two_fires (mount 0))) = 3
   \<and> timers (loading_step 6 (Fire 2) (loading_exec 6 two_fires (mount 0))) = [(3, 3000)]"
proof -
  have h: "(0::nat) < 6"
    by simp
  have s: "loading_exec 6 two_fires (mount 0) = loading_exec 6 two_fires (mount 0)"
    by (rule refl)
  show ?thesis
    using stage_index_advances_by_one_and_stops_at_last [OF h s, where e = "Fire 2"]
    unfolding two_fires_eq
    by (simp add: fire_def advanceStep_def setTimeout_def delay_of_def STEP_DURATIONS_def)
qed

text \<open>
  C7. Let \<open>s\<close> be the component after any sequence of events since it was mounted. The
  cleanup of the effect leaves no timer in the table; running it again changes nothing;
  and after it no later event, whichever handle fires, changes the component: the stage
  index stays what it was. The cleanup runs when the component unmounts, and the page
  unmounts it when a run settles, by a result or by an error, since \<open>isRunning\<close> is then
  false.
\<close>

theorem cleanup_cancels_the_timer_for_good:
  assumes "s = loading_exec n evs (mount h0)" and "i < length (outstanding t)"
  shows "timers (cleanup s) = []
       \<and> cleanup (cleanup s) = cleanup s
       \<and> loading_exec n later (cleanup s) = cleanup s
       \<and> activeStep (loading_exec n later (cleanup s)) = activeStep s
       \<and> loading_mounted (step (Settle i outcome new_id now) t) = False"
proof -
  have inv: "loading_inv s"
    unfolding assms(1) by (rule inv_exec [OF inv_mount])
  have c: "cleanup s = s\<lparr>timers := []\<rparr>"
    by (rule cleanup_inv_eq [OF inv])
  have empty: "timers (cleanup s) = []"
    by (simp add: c)
  have again: "cleanup (cleanup s) = cleanup s"
    using step_no_timers [OF empty, of n Unmount] by simp
  have later: "loading_exec n later (cleanup s) = cleanup s"
    by (rule exec_no_timers [OF empty])
  have index: "activeStep (cleanup s) = activeStep s"
    by (simp add: c)
  have unmounted: "loading_mounted (step (Settle i outcome new_id now) t) = False"
    unfolding loading_mounted_def by (rule settle_stops_running [OF assms(2)])
  show ?thesis
    using empty again later index unmounted by simp
qed

theorem cleanup_cancels_the_timer_for_good_witness:
  "0 < length (outstanding (running_page empty_cache))
   \<and> timers (loading_exec 6 two_fires (mount 0)) = [(2, 5000)]
   \<and> timers (cleanup (loading_exec 6 two_fires (mount 0))) = []
   \<and> activeStep (loading_exec 6 [Fire 2, Fire 1, Unmount, Fire 2]
        (cleanup (loading_exec 6 two_fires (mount 0)))) = 2
   \<and> loading_mounted (step (Settle 0 (Rejected NonError) (js ''id'') 7)
        (running_page empty_cache)) = False"
proof -
  have h: "0 < length (outstanding (running_page empty_cache))"
    by (simp add: running_page_eq)
  have s: "loading_exec 6 two_fires (mount 0) = loading_exec 6 two_fires (mount 0)"
    by (rule refl)
  have c: "cleanup (loading_exec 6 two_fires (mount 0)) =
      \<lparr>activeStep = 2, currentStep = 2, timeout = 2, timers = [], next_handle = 3\<rparr>"
    unfolding two_fires_eq by (simp add: cleanup_def clearTimeout_def)
  show ?thesis
    using h
      cleanup_cancels_the_timer_for_good [OF s h,
        where later = "[Fire 2, Fire 1, Unmount, Fire 2]" and outcome = "Rejected NonError"
          and new_id = "js ''id''" and now = 7]
    unfolding c
    by (simp add: two_fires_eq del: step.simps)
qed

section \<open>The opportunity ranking\<close>

lemma insert_sorted_key:
  assumes "\<And>x y. (sort_compare c x y \<le> 0) = (k x \<le> k y)"
  shows "insert_sorted c x ys = insort_key k x ys"
  by (induction ys) (simp_all add: assms)

lemma js_sort_key:
  assumes "\<And>x y. (sort_compare c x y \<le> 0) = (k x \<le> k y)"
  shows "js_sort c xs = sort_key k xs"
  unfolding js_sort_def sort_key_def
  by (induction xs) (simp_all add: insert_sorted_key [of c k, OF assms])

lemma compare_rice:
  "compare lc (tab_on RiceScore asc) a b =
     Num (if asc then rice_key a - rice_key b else rice_key b - rice_key a)"
  by (simp add: compare_def tab_on_def nullish_or_def score_value_def js_minus_def js_neg_def
      rice_key_def split: option.splits)

lemma rows_rice_ascending:
  "sorted_rows lc (tab_on RiceScore True) opps = sort_key rice_key opps"
  unfolding sorted_rows_def
  by (rule js_sort_key) (simp add: sort_compare_def compare_rice)

lemma rows_rice_descending:
  "sorted_rows lc (tab_on RiceScore False) opps = sort_key (\<lambda>a. - rice_key a) opps"
  unfolding sorted_rows_def
  by (rule js_sort_key) (simp add: sort_compare_def compare_rice)

lemma rows_rice_mset: "mset (sorted_rows lc (tab_on RiceScore asc) opps) = mset opps"
  by (cases asc) (simp_all add: rows_rice_ascending rows_rice_descending)

lemma rows_rice_sorted_ascending:
  "sorted (map rice_key (sorted_rows lc (tab_on RiceScore True) opps))"
  by (simp add: rows_rice_ascending)

lemma rows_rice_sorted_descending:
  "sorted_wrt (\<lambda>x y. y \<le> x) (map rice_key (sorted_rows lc (tab_on RiceScore False) opps))"
proof -
  have "sorted (map (\<lambda>a. - rice_key a) (sort_key (\<lambda>a. - rice_key a) opps))"
    by simp
  then show ?thesis
    by (simp add: rows_rice_descending sorted_map sorted_wrt_map)
qed

lemma rows_rice_stable:
  "filter (\<lambda>a. rice_key a = v) (sorted_rows lc (tab_on RiceScore asc) opps) =
   filter (\<lambda>a. rice_key a = v) opps"
proof (cases asc)
  case True
  then show ?thesis
    by (simp add: rows_rice_ascending sort_key_stable)
next
  case False
  have "filter (\<lambda>a. - rice_key a = - v) (sort_key (\<lambda>a. - rice_key a) opps) =
        filter (\<lambda>a. - rice_key a = - v) opps"
    by (rule sort_key_stable)
  then show ?thesis
    using False by (simp add: rows_rice_descending)
qed

lemma rice_example_descending:
  "map rice_score (sorted_rows no_collation (tab_on RiceScore False)
      [opportunity ''a'' ''high'' (Some 3), opportunity ''b'' ''high'' (Some 9),
       opportunity ''c'' ''high'' None]) = [Some 9, Some 3, None]"
  by (simp add: rows_rice_descending sort_key_def rice_key_def opportunity_def)

lemma rice_example_ascending:
  "map rice_score (sorted_rows no_collation (tab_on RiceScore True)
      [opportunity ''a'' ''high'' (Some 3), opportunity ''b'' ''high'' (Some 9),
       opportunity ''c'' ''high'' None]) = [None, Some 3, Some 9]"
  by (simp add: rows_rice_ascending sort_key_def rice_key_def opportunity_def)

text \<open>
  C8, as stated, fails in its parenthesis: an absent score counts as 0, and 0 is not the
  lowest value when a score is negative. In ascending order the opportunity with the
  score -1 comes first and the one without a score second.
\<close>

theorem absent_score_not_lowest_below_negative:
  "map rice_score (sorted_rows no_collation (tab_on RiceScore True)
      [opportunity ''a'' ''high'' (Some (- 1)), opportunity ''b'' ''high'' None]) =
   [Some (- 1), None]"
  by (simp add: rows_rice_ascending sort_key_def rice_key_def opportunity_def)

text \<open>
  C8, amended. On the field \<open>rice_score\<close> the comparator is the difference of the two
  scores, an absent score counting as 0, and the negated difference when the order is
  descending. So the rows are a rearrangement of the opportunities that is ascending,
  respectively descending, in the score with 0 for an absent one, and rows of equal score
  keep their order: an absent score sorts below every positive score and above every
  negative one. On the scores 3, 9, absent the descending order is 9, 3, absent and the
  ascending order is absent, 3, 9. The tab starts sorted on \<open>rice_score\<close>, descending.
\<close>

theorem rice_score_ranking_counts_absent_as_zero:
  "compare lc (tab_on RiceScore asc) a b =
     Num (if asc then rice_key a - rice_key b else rice_key b - rice_key a)
   \<and> rice_key (a\<lparr>rice_score := None\<rparr>) = 0
   \<and> rice_key (a\<lparr>rice_score := Some x\<rparr>) = x
   \<and> mset (sorted_rows lc (tab_on RiceScore asc) opps) = mset opps
   \<and> sorted (map rice_key (sorted_rows lc (tab_on RiceScore True) opps))
   \<and> sorted_wrt (\<lambda>x y. y \<le> x) (map rice_key (sorted_rows lc (tab_on RiceScore False) opps))
   \<and> filter (\<lambda>a. rice_key a = v) (sorted_rows lc (tab_on RiceScore asc) opps) =
       filter (\<lambda>a. rice_key a = v) opps
   \<and> map rice_score (sorted_rows no_collation (tab_on RiceScore False)
        [opportunity ''a'' ''high'' (Some 3), opportunity ''b'' ''high'' (Some 9),
         opportunity ''c'' ''high'' None]) = [Some 9, Some 3, None]
   \<and> map rice_score (sorted_rows no_collation (tab_on RiceScore True)
        [opportunity ''a'' ''high'' (Some 3), opportunity ''b'' ''high'' (Some 9),
         opportunity ''c'' ''high'' None]) = [None, Some 3, Some 9]
   \<and> initial_tab = tab_on RiceScore False"
  using compare_rice [of lc asc a b] rows_rice_mset [of lc asc opps]
    rows_rice_sorted_ascending [of lc opps] rows_rice_sorted_descending [of lc opps]
    rows_rice_stable [of v lc asc opps] rice_example_descending rice_example_ascending
  by (simp add: rice_key_def initial_tab_def tab_on_def)

lemma order_own_or_absent:
  "k \<notin> set Object_prototype_keys \<Longrightarrow> nullish_or (order k) 0 = Number (confidence_rank k)"
  by (simp add: order_def nullish_or_def confidence_rank_def)

lemma compare_confidence:
  assumes "confidence a \<notin> set Object_prototype_keys"
    and "confidence b \<notin> set Object_prototype_keys"
  shows "compare lc (tab_on Confidence asc) a b =
     Num (if asc then confidence_rank (confidence a) - confidence_rank (confidence b)
          else confidence_rank (confidence b) - confidence_rank (confidence a))"
  by (simp add: compare_def tab_on_def order_own_or_absent [OF assms(1)]
      order_own_or_absent [OF assms(2)] js_minus_def js_neg_def)

lemma order_constructor: "order (js ''constructor'') = Object"
  by (simp add: order_def Object_prototype_keys_def js_def)

lemma order_high: "order (js ''high'') = Number 3"
  by (simp add: order_def)

lemma order_medium: "order (js ''medium'') = Number 2"
  by (simp add: order_def js_def)

lemma order_low: "order (js ''low'') = Number 1"
  by (simp add: order_def js_def)

lemma confidence_example_descending:
  "map confidence (sorted_rows no_collation (tab_on Confidence False)
      [opportunity ''a'' ''low'' None, opportunity ''b'' ''high'' None,
       opportunity ''c'' ''medium'' None]) = [js ''high'', js ''medium'', js ''low'']"
  by (simp add: sorted_rows_def js_sort_def sort_compare_def compare_def tab_on_def
      opportunity_def order_high order_medium order_low nullish_or_def js_minus_def js_neg_def)

text \<open>
  C9. On the three confidences of the example the ranking is as the claim says. But
  \<open>order\<close> is an object literal, and a confidence that is the name of a property inherited
  from \<open>Object.prototype\<close>, such as \<open>constructor\<close>, reads as that property: a function, which
  \<open>?? 0\<close> keeps. The difference is then NaN, which the sort reads as a tie, so the
  opportunity keeps its place: in descending order it stays above one of high confidence,
  and in ascending order below it. It is not ranked as 0.
\<close>

theorem inherited_property_name_ties_instead_of_ranking_lowest:
  "map confidence (sorted_rows no_collation (tab_on Confidence False)
      [opportunity ''a'' ''low'' None, opportunity ''b'' ''high'' None,
       opportunity ''c'' ''medium'' None]) = [js ''high'', js ''medium'', js ''low'']
   \<and> order (js ''constructor'') = Object
   \<and> compare no_collation (tab_on Confidence False)
        (opportunity ''a'' ''constructor'' None) (opportunity ''b'' ''high'' None) = NaN
   \<and> map confidence (sorted_rows no_collation (tab_on Confidence False)
        [opportunity ''a'' ''constructor'' None, opportunity ''b'' ''high'' None]) =
       [js ''constructor'', js ''high'']
   \<and> map confidence (sorted_rows no_collation (tab_on Confidence True)
        [opportunity ''b'' ''high'' None, opportunity ''a'' ''constructor'' None]) =
       [js ''high'', js ''constructor'']"
  using confidence_example_descending
  by (simp add: sorted_rows_def js_sort_def sort_compare_def compare_def tab_on_def
      opportunity_def order_high order_constructor nullish_or_def js_minus_def js_neg_def)

end
